theory Spec2Isabelle
  imports Main "HOL-Library.Word" "HOL-Library.AList" "HOL-Library.Multiset"
begin

section \<open>cache2go: the cache table engine (cacheitem.go, cachetable.go)\<close>

text \<open>
  The embedding is sequential: one goroutine runs one operation at a time, so the
  \<open>sync.RWMutex\<close> calls of the source are no-ops and are left out.

  \<^item> A \<open>*CacheItem\<close> is an address into an explicit store (\<open>heap\<close>); \<open>NewCacheItem\<close>
    allocates the next free address \<open>nxt\<close>. Pointer identity is address equality.
  \<^item> \<open>time.Duration\<close> and the access counter are \<open>int64\<close>: 64-bit words, compared
    through \<open>sint\<close>, with wrapping \<open>+\<close> and \<open>-\<close>.
  \<^item> \<open>time.Now()\<close> reads a monotonic clock (Go attaches a monotonic reading to every
    \<open>time.Now()\<close> and \<open>Sub\<close> uses it): the world carries the last reading \<open>clock\<close> in
    nanoseconds, and each call of \<open>time.Now()\<close> takes the number \<open>d\<close> of nanoseconds
    that passed since the last reading.
  \<^item> Go's \<open>map[interface{}]*CacheItem\<close> is an association list with distinct keys; its
    order is the order in which \<open>range\<close> visits the entries, which Go leaves unspecified.
  \<^item> Callbacks are user code. They are identified by a number, and calling one is
    recorded as an event of the world's \<open>trace\<close>; what a callback does on its own is
    outside the embedding. The trace also records every entry into \<open>expirationCheck\<close>.
  \<^item> Writing to the logger (\<open>table.log\<close>) does not touch the table and is left out; the
    \<open>logger\<close> field itself is kept. \<open>Foreach\<close> only hands the entries to user code and is
    left out as well.
  \<^item> The timer is a value of the table: \<open>time.AfterFunc\<close> makes an active timer, \<open>Stop\<close>
    makes it inactive. Its firing, which starts \<open>expirationCheck\<close> in a goroutine of its
    own, is an operation of its own (\<open>TimerFires\<close> below).
\<close>

type_synonym Time = int
type_synonym Duration = "64 word"
type_synonym addr = nat
type_synonym callback = nat

subsection \<open>errors.go\<close>

text \<open>
  Modelled from the spec: the file declaring \<open>ErrKeyNotFound\<close> and
  \<open>ErrKeyNotFoundOrLoadable\<close> is not among the sources; section 7 of the spec lists
  them as two different error kinds.
\<close>

datatype error = ErrKeyNotFound | ErrKeyNotFoundOrLoadable

subsection \<open>time.Time.Sub\<close>

definition maxDuration :: int where
  "maxDuration = 2 ^ 63 - 1"

definition minDuration :: int where
  "minDuration = - (2 ^ 63)"

text \<open>\<open>t.Sub(u)\<close> is \<open>t - u\<close>, saturated to the range of \<open>int64\<close>.\<close>

definition Sub :: "Time \<Rightarrow> Time \<Rightarrow> Duration" where
  "Sub t u =
     (if t - u > maxDuration then word_of_int maxDuration
      else if t - u < minDuration then word_of_int minDuration
      else word_of_int (t - u))"

subsection \<open>cacheitem.go\<close>

record ('k, 'd) CacheItem =
  key :: 'k
  data :: 'd
  lifeSpan :: Duration
  createdOn :: Time
  accessedOn :: Time
  accessCount :: "64 word"
  aboutToExpire :: "callback list"

subsection \<open>cachetable.go: the data\<close>

datatype Timer = Timer (active: bool) (after: Duration)

fun Stop :: "Timer \<Rightarrow> Timer" where
  "Stop (Timer b d) = Timer False d"

record ('k, 'd) CacheTable =
  name :: string
  items :: "('k \<times> addr) list"
  cleanupTimer :: "Timer option"
  cleanupInterval :: Duration
  logger :: "nat option"
  loadData :: "('k \<Rightarrow> 'd list \<Rightarrow> ('k, 'd) CacheItem option) option"
  addedItem :: "callback list"
  aboutToDeleteItem :: "callback list"

record 'k CacheItemPair =
  Key :: 'k
  AccessCount :: "64 word"

datatype 'k event =
    AddedItemCalled callback addr
  | AboutToDeleteItemCalled callback addr
  | AboutToExpireCalled callback 'k
  | ExpirationCheckRun

record ('k, 'd) world =
  table :: "('k, 'd) CacheTable"
  heap :: "addr \<Rightarrow> ('k, 'd) CacheItem"
  nxt :: addr
  clock :: Time
  trace :: "'k event list"

subsection \<open>The clock and the store\<close>

text \<open>\<open>time.Now()\<close>, called \<open>d\<close> nanoseconds after the last reading of the clock.\<close>

definition time_Now :: "nat \<Rightarrow> ('k, 'd) world \<Rightarrow> Time \<times> ('k, 'd) world" where
  "time_Now d w = (clock w + int d, w\<lparr>clock := clock w + int d\<rparr>)"

text \<open>\<open>&CacheItem{...}\<close>: the item is stored at the next free address.\<close>

definition alloc :: "('k, 'd) CacheItem \<Rightarrow> ('k, 'd) world \<Rightarrow> addr \<times> ('k, 'd) world" where
  "alloc it w = (nxt w, w\<lparr>heap := (heap w)(nxt w := it), nxt := Suc (nxt w)\<rparr>)"

subsection \<open>cacheitem.go: the operations\<close>

definition NewCacheItem ::
  "nat \<Rightarrow> 'k \<Rightarrow> Duration \<Rightarrow> 'd \<Rightarrow> ('k, 'd) world \<Rightarrow> addr \<times> ('k, 'd) world" where
  "NewCacheItem d k ls dat w =
     (let (t, w1) = time_Now d w
      in alloc \<lparr>key = k, data = dat, lifeSpan = ls, createdOn = t, accessedOn = t,
                accessCount = 0, aboutToExpire = []\<rparr> w1)"

definition KeepAlive :: "nat \<Rightarrow> addr \<Rightarrow> ('k, 'd) world \<Rightarrow> ('k, 'd) world" where
  "KeepAlive d item w =
     (let (t, w1) = time_Now d w;
          it = heap w1 item
      in w1\<lparr>heap := (heap w1)(item := it\<lparr>accessedOn := t, accessCount := accessCount it + 1\<rparr>)\<rparr>)"

definition RemoveAboutToExpireCallback :: "addr \<Rightarrow> ('k, 'd) world \<Rightarrow> ('k, 'd) world" where
  "RemoveAboutToExpireCallback item w =
     w\<lparr>heap := (heap w)(item := (heap w item)\<lparr>aboutToExpire := []\<rparr>)\<rparr>"

definition AddAboutToExpireCallback ::
  "addr \<Rightarrow> callback \<Rightarrow> ('k, 'd) world \<Rightarrow> ('k, 'd) world" where
  "AddAboutToExpireCallback item f w =
     w\<lparr>heap := (heap w)(item := (heap w item)\<lparr>aboutToExpire := aboutToExpire (heap w item) @ [f]\<rparr>)\<rparr>"

definition SetAboutToExpireCallback ::
  "addr \<Rightarrow> callback \<Rightarrow> ('k, 'd) world \<Rightarrow> ('k, 'd) world" where
  "SetAboutToExpireCallback item f w =
     (let w1 = (if length (aboutToExpire (heap w item)) > 0
                then RemoveAboutToExpireCallback item w else w)
      in w1\<lparr>heap := (heap w1)(item := (heap w1 item)\<lparr>aboutToExpire := aboutToExpire (heap w1 item) @ [f]\<rparr>)\<rparr>)"

subsection \<open>cachetable.go: counting, callbacks, loader\<close>

definition Count :: "('k, 'd) world \<Rightarrow> nat" where
  "Count w = length (items (table w))"


definition SetDataLoader ::
  "('k \<Rightarrow> 'd list \<Rightarrow> ('k, 'd) CacheItem option) option \<Rightarrow> ('k, 'd) world \<Rightarrow> ('k, 'd) world" where
  "SetDataLoader f w = w\<lparr>table := (table w)\<lparr>loadData := f\<rparr>\<rparr>"

definition SetLogger :: "nat option \<Rightarrow> ('k, 'd) world \<Rightarrow> ('k, 'd) world" where
  "SetLogger l w = w\<lparr>table := (table w)\<lparr>logger := l\<rparr>\<rparr>"

definition RemoveAddedItemCallbacks :: "('k, 'd) world \<Rightarrow> ('k, 'd) world" where
  "RemoveAddedItemCallbacks w = w\<lparr>table := (table w)\<lparr>addedItem := []\<rparr>\<rparr>"

definition AddAddedItemCallback :: "callback \<Rightarrow> ('k, 'd) world \<Rightarrow> ('k, 'd) world" where
  "AddAddedItemCallback f w = w\<lparr>table := (table w)\<lparr>addedItem := addedItem (table w) @ [f]\<rparr>\<rparr>"

definition SetAddedItemCallback :: "callback \<Rightarrow> ('k, 'd) world \<Rightarrow> ('k, 'd) world" where
  "SetAddedItemCallback f w =
     (let w1 = (if length (addedItem (table w)) > 0 then RemoveAddedItemCallbacks w else w)
      in w1\<lparr>table := (table w1)\<lparr>addedItem := addedItem (table w1) @ [f]\<rparr>\<rparr>)"

definition RemoveAboutToDeleteItemCallback :: "('k, 'd) world \<Rightarrow> ('k, 'd) world" where
  "RemoveAboutToDeleteItemCallback w = w\<lparr>table := (table w)\<lparr>aboutToDeleteItem := []\<rparr>\<rparr>"

definition AddAboutToDeleteItemCallback :: "callback \<Rightarrow> ('k, 'd) world \<Rightarrow> ('k, 'd) world" where
  "AddAboutToDeleteItemCallback f w =
     w\<lparr>table := (table w)\<lparr>aboutToDeleteItem := aboutToDeleteItem (table w) @ [f]\<rparr>\<rparr>"

definition SetAboutToDeleteItemCallback :: "callback \<Rightarrow> ('k, 'd) world \<Rightarrow> ('k, 'd) world" where
  "SetAboutToDeleteItemCallback f w =
     (let w1 = (if length (aboutToDeleteItem (table w)) > 0
                then RemoveAboutToDeleteItemCallback w else w)
      in w1\<lparr>table := (table w1)\<lparr>aboutToDeleteItem := aboutToDeleteItem (table w1) @ [f]\<rparr>\<rparr>)"

subsection \<open>cachetable.go: the delete protocol\<close>

text \<open>
  \<open>deleteInternal\<close>: the table's about-to-delete callbacks are called with the item, then
  the item's own about-to-expire callbacks with the key, then the key is removed.
\<close>

definition deleteInternal ::
  "'k \<Rightarrow> ('k, 'd) world \<Rightarrow> (error + addr) \<times> ('k, 'd) world" where
  "deleteInternal k w =
     (case map_of (items (table w)) k of
        None \<Rightarrow> (Inl ErrKeyNotFound, w)
      | Some r \<Rightarrow>
          (let w1 = w\<lparr>trace := trace w @ map (\<lambda>cb. AboutToDeleteItemCalled cb r) (aboutToDeleteItem (table w))\<rparr>;
               w2 = w1\<lparr>trace := trace w1 @ map (\<lambda>cb. AboutToExpireCalled cb k) (aboutToExpire (heap w1 r))\<rparr>
           in (Inr r, w2\<lparr>table := (table w2)\<lparr>items := AList.delete k (items (table w2))\<rparr>\<rparr>)))"

definition Delete :: "'k \<Rightarrow> ('k, 'd) world \<Rightarrow> (error + addr) \<times> ('k, 'd) world" where
  "Delete k w = deleteInternal k w"

subsection \<open>cachetable.go: the expiration scheduler\<close>

text \<open>
  The loop of \<open>expirationCheck\<close> over the entries \<open>range\<close> yields. The only entry the loop
  body removes is the one it is visiting, so the entries yielded are those of the map
  when the loop starts.
\<close>

fun expirationLoop ::
  "Time \<Rightarrow> ('k \<times> addr) list \<Rightarrow> ('k, 'd) world \<Rightarrow> Duration \<Rightarrow> ('k, 'd) world \<times> Duration" where
  "expirationLoop now [] w smallestDuration = (w, smallestDuration)"
| "expirationLoop now ((k, item) # rest) w smallestDuration =
     (let ls = lifeSpan (heap w item);
          acc = accessedOn (heap w item)
      in if ls = 0 then expirationLoop now rest w smallestDuration
         else if sint ls \<le> sint (Sub now acc)
           then expirationLoop now rest (snd (deleteInternal k w)) smallestDuration
         else if smallestDuration = 0 \<or> sint (ls - Sub now acc) < sint smallestDuration
           then expirationLoop now rest w (ls - Sub now acc)
         else expirationLoop now rest w smallestDuration)"

definition expirationCheck :: "nat \<Rightarrow> ('k, 'd) world \<Rightarrow> ('k, 'd) world" where
  "expirationCheck d w =
     (let w0 = w\<lparr>table := (table w)\<lparr>cleanupTimer := map_option Stop (cleanupTimer (table w))\<rparr>,
                 trace := trace w @ [ExpirationCheckRun]\<rparr>;
          (now, w1) = time_Now d w0;
          (w2, smallestDuration) = expirationLoop now (items (table w1)) w1 0;
          w3 = w2\<lparr>table := (table w2)\<lparr>cleanupInterval := smallestDuration\<rparr>\<rparr>
      in if 0 < sint smallestDuration
         then w3\<lparr>table := (table w3)\<lparr>cleanupTimer := Some (Timer True smallestDuration)\<rparr>\<rparr>
         else w3)"

subsection \<open>cachetable.go: the add protocol\<close>

definition addInternal :: "nat \<Rightarrow> addr \<Rightarrow> ('k, 'd) world \<Rightarrow> ('k, 'd) world" where
  "addInternal dc item w =
     (let w1 = w\<lparr>table := (table w)\<lparr>items := AList.update (key (heap w item)) item (items (table w))\<rparr>\<rparr>;
          expDur = cleanupInterval (table w1);
          cbs = addedItem (table w1);
          w2 = w1\<lparr>trace := trace w1 @ map (\<lambda>cb. AddedItemCalled cb item) cbs\<rparr>
      in if 0 < sint (lifeSpan (heap w2 item))
            \<and> (expDur = 0 \<or> sint (lifeSpan (heap w2 item)) < sint expDur)
         then expirationCheck dc w2 else w2)"

definition Add ::
  "nat \<Rightarrow> nat \<Rightarrow> 'k \<Rightarrow> Duration \<Rightarrow> 'd \<Rightarrow> ('k, 'd) world \<Rightarrow> addr \<times> ('k, 'd) world" where
  "Add d dc k ls dat w =
     (let (item, w1) = NewCacheItem d k ls dat w
      in (item, addInternal dc item w1))"

definition NotFoundAdd ::
  "nat \<Rightarrow> nat \<Rightarrow> 'k \<Rightarrow> Duration \<Rightarrow> 'd \<Rightarrow> ('k, 'd) world \<Rightarrow> bool \<times> ('k, 'd) world" where
  "NotFoundAdd d dc k ls dat w =
     (case map_of (items (table w)) k of
        Some _ \<Rightarrow> (False, w)
      | None \<Rightarrow>
          (let (item, w1) = NewCacheItem d k ls dat w
           in (True, addInternal dc item w1)))"

subsection \<open>cachetable.go: Value, Flush, MostAccessed\<close>

text \<open>
  The loader is user code returning \<open>nil\<close> or a pointer to an item it built; here it is a
  function to the item's contents, and the pointer it returns is a newly allocated
  address.
\<close>

definition Value ::
  "nat \<Rightarrow> nat \<Rightarrow> 'k \<Rightarrow> 'd list \<Rightarrow> ('k, 'd) world \<Rightarrow> (error + addr) \<times> ('k, 'd) world" where
  "Value d dc k args w =
     (case map_of (items (table w)) k of
        Some r \<Rightarrow> (Inr r, KeepAlive d r w)
      | None \<Rightarrow>
          (case loadData (table w) of
             Some f \<Rightarrow>
               (case f k args of
                  Some it \<Rightarrow>
                    (let (item, w1) = alloc it w;
                         (added, w2) = Add d dc k (lifeSpan (heap w1 item)) (data (heap w1 item)) w1
                     in (Inr item, w2))
                | None \<Rightarrow> (Inl ErrKeyNotFoundOrLoadable, w))
           | None \<Rightarrow> (Inl ErrKeyNotFound, w)))"

definition Flush :: "('k, 'd) world \<Rightarrow> ('k, 'd) world" where
  "Flush w =
     w\<lparr>table := (table w)\<lparr>items := [], cleanupInterval := 0,
                           cleanupTimer := map_option Stop (cleanupTimer (table w))\<rparr>\<rparr>"

text \<open>\<open>Less\<close> of \<open>CacheItemPairList\<close>: the larger access count comes first.\<close>

definition Less :: "'k CacheItemPair \<Rightarrow> 'k CacheItemPair \<Rightarrow> bool" where
  "Less pi pj = (sint (AccessCount pi) > sint (AccessCount pj))"

text \<open>
  What \<open>sort.Sort\<close> of the Go library guarantees: the result is a permutation of the
  slice in which no later element is \<open>Less\<close> than an earlier one. The sort is not
  stable, so \<open>MostAccessed\<close> takes the sorting function as a parameter.
\<close>

definition sort_Sort_ok :: "('k CacheItemPair list \<Rightarrow> 'k CacheItemPair list) \<Rightarrow> bool" where
  "sort_Sort_ok srt =
     (\<forall>p. mset (srt p) = mset p \<and> sorted_wrt (\<lambda>x y. \<not> Less y x) (srt p))"

text \<open>The second loop of \<open>MostAccessed\<close>, with its counter \<open>c\<close>; \<open>cnt\<close> is the
  parameter \<open>count\<close> (an \<open>int64\<close>).\<close>

fun mostAccessedLoop ::
  "('k \<times> addr) list \<Rightarrow> int \<Rightarrow> 'k CacheItemPair list \<Rightarrow> int \<Rightarrow> addr list" where
  "mostAccessedLoop its cnt [] c = []"
| "mostAccessedLoop its cnt (v # p) c =
     (if c \<ge> cnt then []
      else (case map_of its (Key v) of
              Some item \<Rightarrow> item # mostAccessedLoop its cnt p (c + 1)
            | None \<Rightarrow> mostAccessedLoop its cnt p (c + 1)))"

definition MostAccessed ::
  "('k CacheItemPair list \<Rightarrow> 'k CacheItemPair list) \<Rightarrow> int \<Rightarrow> ('k, 'd) world \<Rightarrow> addr list" where
  "MostAccessed srt cnt w =
     (let p = map (\<lambda>(k, v). \<lparr>Key = k, AccessCount = accessCount (heap w v)\<rparr>) (items (table w))
      in mostAccessedLoop (items (table w)) cnt (srt p) 0)"

subsection \<open>cache.go: a new table\<close>

text \<open>\<open>Cache(table)\<close> creates \<open>&CacheTable{name: table, items: make(map...)}\<close>.\<close>

definition newCacheTable :: "string \<Rightarrow> ('k, 'd) CacheTable" where
  "newCacheTable n =
     \<lparr>name = n, items = [], cleanupTimer = None, cleanupInterval = 0, logger = None,
      loadData = None, addedItem = [], aboutToDeleteItem = []\<rparr>"

section \<open>Notions used to state the properties\<close>

text \<open>The two tests of the loop of \<open>expirationCheck\<close>, on an item's contents.\<close>

definition expired :: "Time \<Rightarrow> ('k, 'd) CacheItem \<Rightarrow> bool" where
  "expired now it = (lifeSpan it \<noteq> 0 \<and> sint (lifeSpan it) \<le> sint (Sub now (accessedOn it)))"

definition survivor :: "Time \<Rightarrow> ('k, 'd) CacheItem \<Rightarrow> bool" where
  "survivor now it = (lifeSpan it \<noteq> 0 \<and> \<not> sint (lifeSpan it) \<le> sint (Sub now (accessedOn it)))"

definition remaining :: "Time \<Rightarrow> ('k, 'd) CacheItem \<Rightarrow> Duration" where
  "remaining now it = lifeSpan it - Sub now (accessedOn it)"


definition timeLeft :: "Time \<Rightarrow> ('k, 'd) CacheItem \<Rightarrow> int" where
  "timeLeft now it = sint (lifeSpan it) - (now - accessedOn it)"

text \<open>The keys the loop removes when it runs over \<open>xs\<close>.\<close>

definition doomed :: "Time \<Rightarrow> ('k, 'd) world \<Rightarrow> ('k \<times> addr) list \<Rightarrow> 'k set" where
  "doomed now w xs = fst ` {q \<in> set xs. expired now (heap w (snd q))}"

text \<open>The update of \<open>smallestDuration\<close> in the loop.\<close>

definition smaller :: "Duration \<Rightarrow> Duration \<Rightarrow> Duration" where
  "smaller s r = (if s = 0 \<or> sint r < sint s then r else s)"

text \<open>The callbacks the delete protocol calls for the item \<open>r\<close> stored under \<open>k\<close>, in order.\<close>

definition deleteEvents :: "('k, 'd) world \<Rightarrow> 'k \<Rightarrow> addr \<Rightarrow> 'k event list" where
  "deleteEvents w k r =
     map (\<lambda>cb. AboutToDeleteItemCalled cb r) (aboutToDeleteItem (table w))
     @ map (\<lambda>cb. AboutToExpireCalled cb k) (aboutToExpire (heap w r))"

text \<open>The test of \<open>addInternal\<close> that starts the scheduler, on the item's lifespan and the
  interval read before the callbacks.\<close>

definition triggers :: "Duration \<Rightarrow> Duration \<Rightarrow> bool" where
  "triggers ls expDur = (0 < sint ls \<and> (expDur = 0 \<or> sint ls < sint expDur))"

text \<open>Events that are calls of an added-item callback.\<close>

fun isAddedItemCalled :: "'k event \<Rightarrow> bool" where
  "isAddedItemCalled (AddedItemCalled cb item) = True"
| "isAddedItemCalled e = False"

text \<open>Registering a list of callbacks with the "add" operations, one after the other.\<close>

definition addAddedItemCallbacks :: "callback list \<Rightarrow> ('k, 'd) world \<Rightarrow> ('k, 'd) world" where
  "addAddedItemCallbacks gs w = foldl (\<lambda>w g. AddAddedItemCallback g w) w gs"

definition addAboutToDeleteItemCallbacks :: "callback list \<Rightarrow> ('k, 'd) world \<Rightarrow> ('k, 'd) world" where
  "addAboutToDeleteItemCallbacks gs w = foldl (\<lambda>w g. AddAboutToDeleteItemCallback g w) w gs"

definition addAboutToExpireCallbacks :: "addr \<Rightarrow> callback list \<Rightarrow> ('k, 'd) world \<Rightarrow> ('k, 'd) world" where
  "addAboutToExpireCallbacks item gs w = foldl (\<lambda>w g. AddAboutToExpireCallback item g w) w gs"

section \<open>Sequences of operations\<close>

text \<open>
  The operations that change a table or an item, as a caller or the timer can issue
  them; \<open>TimerFires\<close> is the timer running \<open>expirationCheck\<close>. The read-only operations
  (\<open>Count\<close>, \<open>Exists\<close>, \<open>MostAccessed\<close> and the getters of an item) change nothing and are
  left out.
\<close>

datatype ('k, 'd) operation =
    ItemKeepAlive nat addr
  | ItemSetAboutToExpireCallback addr callback
  | ItemAddAboutToExpireCallback addr callback
  | ItemRemoveAboutToExpireCallback addr
  | TableSetDataLoader "('k \<Rightarrow> 'd list \<Rightarrow> ('k, 'd) CacheItem option) option"
  | TableSetLogger "nat option"
  | TableSetAddedItemCallback callback
  | TableAddAddedItemCallback callback
  | TableRemoveAddedItemCallbacks
  | TableSetAboutToDeleteItemCallback callback
  | TableAddAboutToDeleteItemCallback callback
  | TableRemoveAboutToDeleteItemCallback
  | TableAdd nat nat 'k Duration 'd
  | TableNotFoundAdd nat nat 'k Duration 'd
  | TableDelete 'k
  | TableValue nat nat 'k "'d list"
  | TableFlush
  | TimerFires nat

fun exec :: "('k, 'd) operation \<Rightarrow> ('k, 'd) world \<Rightarrow> ('k, 'd) world" where
  "exec (ItemKeepAlive d item) w = KeepAlive d item w"
| "exec (ItemSetAboutToExpireCallback item f) w = SetAboutToExpireCallback item f w"
| "exec (ItemAddAboutToExpireCallback item f) w = AddAboutToExpireCallback item f w"
| "exec (ItemRemoveAboutToExpireCallback item) w = RemoveAboutToExpireCallback item w"
| "exec (TableSetDataLoader f) w = SetDataLoader f w"
| "exec (TableSetLogger l) w = SetLogger l w"
| "exec (TableSetAddedItemCallback f) w = SetAddedItemCallback f w"
| "exec (TableAddAddedItemCallback f) w = AddAddedItemCallback f w"
| "exec TableRemoveAddedItemCallbacks w = RemoveAddedItemCallbacks w"
| "exec (TableSetAboutToDeleteItemCallback f) w = SetAboutToDeleteItemCallback f w"
| "exec (TableAddAboutToDeleteItemCallback f) w = AddAboutToDeleteItemCallback f w"
| "exec TableRemoveAboutToDeleteItemCallback w = RemoveAboutToDeleteItemCallback w"
| "exec (TableAdd d dc k ls dat) w = snd (Add d dc k ls dat w)"
| "exec (TableNotFoundAdd d dc k ls dat) w = snd (NotFoundAdd d dc k ls dat w)"
| "exec (TableDelete k) w = snd (Delete k w)"
| "exec (TableValue d dc k args) w = snd (Value d dc k args w)"
| "exec TableFlush w = Flush w"
| "exec (TimerFires d) w = expirationCheck d w"

definition run :: "('k, 'd) operation list \<Rightarrow> ('k, 'd) world \<Rightarrow> ('k, 'd) world" where
  "run ops w = foldl (\<lambda>w op. exec op w) w ops"


text \<open>
  What holds of every world the operations build: the keys of the item map are distinct,
  and every item of the map is allocated and was last accessed no later than the clock
  reads.
\<close>

definition wellFormed :: "('k, 'd) world \<Rightarrow> bool" where
  "wellFormed w =
     (distinct (map fst (items (table w)))
      \<and> list_all (\<lambda>p. snd p < nxt w \<and> accessedOn (heap w (snd p)) \<le> clock w) (items (table w)))"

section \<open>Examples\<close>

definition noItem :: "(string, nat) CacheItem" where
  "noItem = \<lparr>key = [], data = 0, lifeSpan = 0, createdOn = 0, accessedOn = 0,
             accessCount = 0, aboutToExpire = []\<rparr>"

definition emptyWorld :: "(string, nat) world" where
  "emptyWorld = \<lparr>table = newCacheTable ''myCache'', heap = (\<lambda>a. noItem), nxt = 0, clock = 0,
                 trace = []\<rparr>"

subsection \<open>A sorting function for the examples\<close>

text \<open>
  An insertion sort by \<open>Less\<close>, as a sorting function that meets \<open>sort_Sort_ok\<close>
  (\<open>sort.Sort\<close> itself sorts short slices by insertion).
\<close>

fun insertLess :: "'k CacheItemPair \<Rightarrow> 'k CacheItemPair list \<Rightarrow> 'k CacheItemPair list" where
  "insertLess v [] = [v]"
| "insertLess v (u # us) = (if Less u v then u # insertLess v us else v # u # us)"

definition insertionSort :: "'k CacheItemPair list \<Rightarrow> 'k CacheItemPair list" where
  "insertionSort p = foldl (\<lambda>acc v. insertLess v acc) [] p"

subsection \<open>Example worlds\<close>

text \<open>Four items with the access counts 5, 1, 9 and 3.\<close>

definition rankWorld :: "(string, nat) world" where
  "rankWorld =
     emptyWorld\<lparr>table := (newCacheTable ''myCache'')\<lparr>items := [(''a'', 0), (''b'', 1), (''c'', 2), (''d'', 3)]\<rparr>,
       heap := (\<lambda>a. noItem)
         (0 := noItem\<lparr>key := ''a'', accessCount := 5\<rparr>,
          1 := noItem\<lparr>key := ''b'', accessCount := 1\<rparr>,
          2 := noItem\<lparr>key := ''c'', accessCount := 9\<rparr>,
          3 := noItem\<lparr>key := ''d'', accessCount := 3\<rparr>),
       nxt := 4\<rparr>"



text \<open>An empty table whose loader declines every key.\<close>

definition declineWorld :: "(string, nat) world" where
  "declineWorld = SetDataLoader (Some (\<lambda>k args. None)) emptyWorld"

text \<open>A table with callback 9 in both lists and one immortal item.\<close>

definition oneWorld :: "(string, nat) world" where
  "oneWorld = snd (Add 0 0 ''a'' 0 1 (AddAboutToDeleteItemCallback 9 (AddAddedItemCallback 9 emptyWorld)))"

text \<open>An empty table whose loader builds an immortal item for every key.\<close>

definition loaderWorld :: "(string, nat) world" where
  "loaderWorld =
     SetDataLoader (Some (\<lambda>k args. Some \<lparr>key = k, data = 42, lifeSpan = 0, createdOn = 0,
        accessedOn = 0, accessCount = 0, aboutToExpire = []\<rparr>)) emptyWorld"


section \<open>Properties\<close>

subsection \<open>What the delete protocol and the scheduler leave alone\<close>

lemma deleteInternal_frame:
  "heap (snd (deleteInternal k w)) = heap w"
  "nxt (snd (deleteInternal k w)) = nxt w"
  "clock (snd (deleteInternal k w)) = clock w"
  "name (table (snd (deleteInternal k w))) = name (table w)"
  "cleanupTimer (table (snd (deleteInternal k w))) = cleanupTimer (table w)"
  "cleanupInterval (table (snd (deleteInternal k w))) = cleanupInterval (table w)"
  "logger (table (snd (deleteInternal k w))) = logger (table w)"
  "loadData (table (snd (deleteInternal k w))) = loadData (table w)"
  "addedItem (table (snd (deleteInternal k w))) = addedItem (table w)"
  "aboutToDeleteItem (table (snd (deleteInternal k w))) = aboutToDeleteItem (table w)"
  by (simp_all add: deleteInternal_def Let_def split: option.splits)

lemma deleteInternal_items:
  "items (table (snd (deleteInternal k w))) = AList.delete k (items (table w))"
  by (auto simp: deleteInternal_def Let_def map_of_eq_None_iff split: option.splits)

lemma deleteInternal_trace:
  "map_of (items (table w)) k = Some r \<Longrightarrow>
   trace (snd (deleteInternal k w)) = trace w @ deleteEvents w k r"
  by (simp add: deleteInternal_def Let_def deleteEvents_def)

lemma expirationLoop_frame:
  "heap (fst (expirationLoop now xs w sm)) = heap w
   \<and> nxt (fst (expirationLoop now xs w sm)) = nxt w
   \<and> clock (fst (expirationLoop now xs w sm)) = clock w
   \<and> name (table (fst (expirationLoop now xs w sm))) = name (table w)
   \<and> cleanupTimer (table (fst (expirationLoop now xs w sm))) = cleanupTimer (table w)
   \<and> cleanupInterval (table (fst (expirationLoop now xs w sm))) = cleanupInterval (table w)
   \<and> logger (table (fst (expirationLoop now xs w sm))) = logger (table w)
   \<and> loadData (table (fst (expirationLoop now xs w sm))) = loadData (table w)
   \<and> addedItem (table (fst (expirationLoop now xs w sm))) = addedItem (table w)
   \<and> aboutToDeleteItem (table (fst (expirationLoop now xs w sm))) = aboutToDeleteItem (table w)"
proof (induction xs arbitrary: w sm)
  case Nil
  show ?case by simp
next
  case (Cons x xs)
  obtain k a where x: "x = (k, a)" by (cases x)
  show ?case
    unfolding x by (simp add: Let_def Cons.IH deleteInternal_frame)
qed

lemma expirationCheck_frame:
  "heap (expirationCheck d w) = heap w"
  "nxt (expirationCheck d w) = nxt w"
  "clock (expirationCheck d w) = clock w + int d"
  "name (table (expirationCheck d w)) = name (table w)"
  "logger (table (expirationCheck d w)) = logger (table w)"
  "loadData (table (expirationCheck d w)) = loadData (table w)"
  "addedItem (table (expirationCheck d w)) = addedItem (table w)"
  "aboutToDeleteItem (table (expirationCheck d w)) = aboutToDeleteItem (table w)"
  by (simp_all add: expirationCheck_def time_Now_def Let_def case_prod_beta
        expirationLoop_frame)

lemma addInternal_frame:
  "heap (addInternal dc item w) = heap w"
  "nxt (addInternal dc item w) = nxt w"
  "name (table (addInternal dc item w)) = name (table w)"
  "logger (table (addInternal dc item w)) = logger (table w)"
  "loadData (table (addInternal dc item w)) = loadData (table w)"
  "addedItem (table (addInternal dc item w)) = addedItem (table w)"
  "aboutToDeleteItem (table (addInternal dc item w)) = aboutToDeleteItem (table w)"
  by (simp_all add: addInternal_def Let_def expirationCheck_frame)

subsection \<open>The loop of the scheduler, step by step\<close>

lemma expirationLoop_Cons:
  "expirationLoop now ((k, a) # xs) w sm =
     expirationLoop now xs
       (if expired now (heap w a) then snd (deleteInternal k w) else w)
       (if survivor now (heap w a) then smaller sm (remaining now (heap w a)) else sm)"
  by (simp add: Let_def expired_def survivor_def smaller_def remaining_def)

lemma expirationCheck_unfold:
  "expirationCheck d w =
     (let w1 = w\<lparr>table := (table w)\<lparr>cleanupTimer := map_option Stop (cleanupTimer (table w))\<rparr>,
                 trace := trace w @ [ExpirationCheckRun], clock := clock w + int d\<rparr>;
          r = expirationLoop (clock w + int d) (items (table w)) w1 0;
          w3 = (fst r)\<lparr>table := (table (fst r))\<lparr>cleanupInterval := snd r\<rparr>\<rparr>
      in if 0 < sint (snd r)
         then w3\<lparr>table := (table w3)\<lparr>cleanupTimer := Some (Timer True (snd r))\<rparr>\<rparr>
         else w3)"
  by (simp add: expirationCheck_def time_Now_def Let_def case_prod_beta)

lemma doomed_Cons:
  "doomed now w ((k, a) # xs) =
     (if expired now (heap w a) then insert k (doomed now w xs) else doomed now w xs)"
  by (auto simp: doomed_def image_iff)

lemma delete_as_filter: "AList.delete k ys = filter (\<lambda>p. fst p \<noteq> k) ys"
  by (induction ys) auto

lemma expirationLoop_items:
  "items (table (fst (expirationLoop now xs w sm))) =
     filter (\<lambda>p. fst p \<notin> doomed now w xs) (items (table w))"
proof (induction xs arbitrary: w sm)
  case Nil
  show ?case by (simp add: doomed_def)
next
  case (Cons x xs)
  obtain k a where x: "x = (k, a)" by (cases x)
  have d: "doomed now (snd (deleteInternal k w)) xs = doomed now w xs"
    by (simp add: doomed_def deleteInternal_frame)
  show ?case
  proof (cases "expired now (heap w a)")
    case True
    then have "expirationLoop now (x # xs) w sm = expirationLoop now xs (snd (deleteInternal k w)) sm"
      by (simp add: x expired_def Let_def)
    then show ?thesis
      using True
      by (simp add: Cons.IH d deleteInternal_items delete_as_filter x doomed_Cons conj_commute)
  next
    case False
    then have "fst (expirationLoop now (x # xs) w sm) = fst (expirationLoop now xs w sm)
       \<or> (\<exists>sm'. fst (expirationLoop now (x # xs) w sm) = fst (expirationLoop now xs w sm'))"
      by (auto simp: x expired_def Let_def)
    then show ?thesis
      using False by (auto simp: Cons.IH x doomed_Cons)
  qed
qed









lemma deleteEvents_kinds:
  "ExpirationCheckRun \<notin> set (deleteEvents w k r)"
  "\<forall>e \<in> set (deleteEvents w k r). \<not> isAddedItemCalled e"
  by (auto simp: deleteEvents_def)

lemma deleteInternal_trace_any:
  "\<exists>es. ExpirationCheckRun \<notin> set es \<and> (\<forall>e \<in> set es. \<not> isAddedItemCalled e)
     \<and> trace (snd (deleteInternal k w)) = trace w @ es"
proof (cases "map_of (items (table w)) k")
  case None
  then show ?thesis by (simp add: deleteInternal_def)
next
  case (Some r)
  have "trace (snd (deleteInternal k w)) = trace w @ deleteEvents w k r"
    by (rule deleteInternal_trace[OF Some])
  then show ?thesis using deleteEvents_kinds[of w k r] by blast
qed

lemma expirationLoop_trace_any:
  "\<exists>es. ExpirationCheckRun \<notin> set es \<and> (\<forall>e \<in> set es. \<not> isAddedItemCalled e)
     \<and> trace (fst (expirationLoop now xs w sm)) = trace w @ es"
proof (induction xs arbitrary: w sm)
  case Nil
  show ?case by simp
next
  case (Cons x xs)
  obtain k a where x: "x = (k, a)" by (cases x)
  let ?w' = "if expired now (heap w a) then snd (deleteInternal k w) else w"
  let ?sm' = "if survivor now (heap w a) then smaller sm (remaining now (heap w a)) else sm"
  obtain es where es: "ExpirationCheckRun \<notin> set es" "\<forall>e \<in> set es. \<not> isAddedItemCalled e"
     "trace ?w' = trace w @ es"
  proof (cases "expired now (heap w a)")
    case True
    then show ?thesis using deleteInternal_trace_any[of k w] that by auto
  next
    case False
    then show ?thesis using that[of "[]"] by simp
  qed
  obtain es' where es': "ExpirationCheckRun \<notin> set es'" "\<forall>e \<in> set es'. \<not> isAddedItemCalled e"
     "trace (fst (expirationLoop now xs ?w' ?sm')) = trace ?w' @ es'"
    using Cons.IH[of ?w' ?sm'] by blast
  have "trace (fst (expirationLoop now (x # xs) w sm)) = trace w @ (es @ es')"
    unfolding x expirationLoop_Cons using es(3) es'(3) by simp
  moreover have "ExpirationCheckRun \<notin> set (es @ es')" using es(1) es'(1) by simp
  moreover have "\<forall>e \<in> set (es @ es'). \<not> isAddedItemCalled e" using es(2) es'(2) by auto
  ultimately show ?case by blast
qed

lemma expirationCheck_trace_any:
  "\<exists>es. ExpirationCheckRun \<notin> set es \<and> (\<forall>e \<in> set es. \<not> isAddedItemCalled e)
     \<and> trace (expirationCheck d w) = trace w @ ExpirationCheckRun # es"
proof -
  let ?w1 = "w\<lparr>table := (table w)\<lparr>cleanupTimer := map_option Stop (cleanupTimer (table w))\<rparr>,
                 trace := trace w @ [ExpirationCheckRun], clock := clock w + int d\<rparr>"
  obtain es where es: "ExpirationCheckRun \<notin> set es" "\<forall>e \<in> set es. \<not> isAddedItemCalled e"
    "trace (fst (expirationLoop (clock w + int d) (items (table w)) ?w1 0)) = trace ?w1 @ es"
    using expirationLoop_trace_any by blast
  have "trace (expirationCheck d w) = trace w @ ExpirationCheckRun # es"
    unfolding expirationCheck_unfold using es(3) by (simp add: Let_def)
  then show ?thesis using es(1,2) by blast
qed

subsection \<open>Flush\<close>

text \<open>
  C6. \<open>Flush\<close> replaces the item map with an empty one, so \<open>Count\<close> is 0 afterwards; it
  sets \<open>cleanupInterval\<close> to 0 and stops the timer if there is one, so no timer is
  active afterwards; it calls no callback (the trace is unchanged); and it leaves the
  name, the loader, both callback lists, the logger, the store and the clock as they
  were.
\<close>

theorem Flush_resets_table:
  "items (table (Flush w)) = [] \<and> Count (Flush w) = 0
   \<and> cleanupInterval (table (Flush w)) = 0
   \<and> (case cleanupTimer (table (Flush w)) of None \<Rightarrow> True | Some t \<Rightarrow> \<not> active t)
   \<and> trace (Flush w) = trace w
   \<and> name (table (Flush w)) = name (table w)
   \<and> loadData (table (Flush w)) = loadData (table w)
   \<and> addedItem (table (Flush w)) = addedItem (table w)
   \<and> aboutToDeleteItem (table (Flush w)) = aboutToDeleteItem (table w)
   \<and> logger (table (Flush w)) = logger (table w)
   \<and> heap (Flush w) = heap w \<and> nxt (Flush w) = nxt w \<and> clock (Flush w) = clock w"
proof -
  have t: "case cleanupTimer (table (Flush w)) of None \<Rightarrow> True | Some t \<Rightarrow> \<not> active t"
  proof (cases "cleanupTimer (table w)")
    case None
    then show ?thesis by (simp add: Flush_def)
  next
    case (Some t)
    then show ?thesis by (cases t) (simp add: Flush_def)
  qed
  show ?thesis using t by (simp add: Flush_def Count_def)
qed

subsection \<open>The add protocol and the scheduler\<close>

lemma addInternal_eq:
  "addInternal dc item w =
     (if triggers (lifeSpan (heap w item)) (cleanupInterval (table w))
      then expirationCheck dc
        (w\<lparr>table := (table w)\<lparr>items := AList.update (key (heap w item)) item (items (table w))\<rparr>,
           trace := trace w @ map (\<lambda>cb. AddedItemCalled cb item) (addedItem (table w))\<rparr>)
      else w\<lparr>table := (table w)\<lparr>items := AList.update (key (heap w item)) item (items (table w))\<rparr>,
             trace := trace w @ map (\<lambda>cb. AddedItemCalled cb item) (addedItem (table w))\<rparr>)"
  by (cases "triggers (lifeSpan (heap w item)) (cleanupInterval (table w))")
     (auto simp: addInternal_def Let_def triggers_def)

lemma addInternal_trace_any:
  "\<exists>es. ExpirationCheckRun \<notin> set es \<and> (\<forall>e \<in> set es. \<not> isAddedItemCalled e) \<and>
         trace (addInternal dc item w) =
           trace w @ map (\<lambda>cb. AddedItemCalled cb item) (addedItem (table w))
           @ (if triggers (lifeSpan (heap w item)) (cleanupInterval (table w))
              then ExpirationCheckRun # es else [])"
proof (cases "triggers (lifeSpan (heap w item)) (cleanupInterval (table w))")
  case True
  let ?w2 = "w\<lparr>table := (table w)\<lparr>items := AList.update (key (heap w item)) item (items (table w))\<rparr>,
                trace := trace w @ map (\<lambda>cb. AddedItemCalled cb item) (addedItem (table w))\<rparr>"
  obtain es where es: "ExpirationCheckRun \<notin> set es" "\<forall>e \<in> set es. \<not> isAddedItemCalled e"
     "trace (expirationCheck dc ?w2) = trace ?w2 @ ExpirationCheckRun # es"
    using expirationCheck_trace_any by blast
  have "trace (addInternal dc item w) =
       trace w @ map (\<lambda>cb. AddedItemCalled cb item) (addedItem (table w)) @ ExpirationCheckRun # es"
    using addInternal_eq[of dc item w] True es(3) by simp
  then show ?thesis using True es(1,2) by auto
next
  case False
  then have "trace (addInternal dc item w) =
       trace w @ map (\<lambda>cb. AddedItemCalled cb item) (addedItem (table w))"
    using addInternal_eq[of dc item w] by simp
  then show ?thesis using False by (intro exI[of _ "[]"]) simp
qed

text \<open>
  C7. \<open>addInternal\<close> first stores the item under its key and calls the added-item
  callbacks in list order; after that it runs \<open>expirationCheck\<close> if and only if the
  item's lifespan is positive and the \<open>cleanupInterval\<close> read before the callbacks is 0
  or larger than the lifespan. In the trace: the events \<open>addInternal\<close> appends are the
  callbacks' calls, followed by one entry into \<open>expirationCheck\<close> exactly when the
  condition holds.
\<close>

theorem addInternal_triggers_scheduler_iff:
  "addInternal dc item w =
     (if triggers (lifeSpan (heap w item)) (cleanupInterval (table w))
      then expirationCheck dc
        (w\<lparr>table := (table w)\<lparr>items := AList.update (key (heap w item)) item (items (table w))\<rparr>,
           trace := trace w @ map (\<lambda>cb. AddedItemCalled cb item) (addedItem (table w))\<rparr>)
      else w\<lparr>table := (table w)\<lparr>items := AList.update (key (heap w item)) item (items (table w))\<rparr>,
             trace := trace w @ map (\<lambda>cb. AddedItemCalled cb item) (addedItem (table w))\<rparr>)
   \<and> (\<exists>es. ExpirationCheckRun \<notin> set es \<and>
         trace (addInternal dc item w) =
           trace w @ map (\<lambda>cb. AddedItemCalled cb item) (addedItem (table w))
           @ (if triggers (lifeSpan (heap w item)) (cleanupInterval (table w))
              then ExpirationCheckRun # es else []))
   \<and> (ExpirationCheckRun \<in> set (drop (length (trace w)) (trace (addInternal dc item w))))
       = triggers (lifeSpan (heap w item)) (cleanupInterval (table w))
   \<and> triggers (lifeSpan (heap w item)) (cleanupInterval (table w))
       = (0 < sint (lifeSpan (heap w item))
          \<and> (cleanupInterval (table w) = 0
             \<or> sint (lifeSpan (heap w item)) < sint (cleanupInterval (table w))))"
proof -
  let ?T = "triggers (lifeSpan (heap w item)) (cleanupInterval (table w))"
  obtain es where es: "ExpirationCheckRun \<notin> set es"
     "trace (addInternal dc item w) =
           trace w @ map (\<lambda>cb. AddedItemCalled cb item) (addedItem (table w))
           @ (if ?T then ExpirationCheckRun # es else [])"
    using addInternal_trace_any[of dc item w] by blast
  have "(ExpirationCheckRun \<in> set (drop (length (trace w)) (trace (addInternal dc item w)))) = ?T"
    unfolding es(2) using es(1) by auto
  moreover have "?T = (0 < sint (lifeSpan (heap w item))
          \<and> (cleanupInterval (table w) = 0
             \<or> sint (lifeSpan (heap w item)) < sint (cleanupInterval (table w))))"
    by (simp add: triggers_def)
  ultimately show ?thesis using addInternal_eq[of dc item w] es by blast
qed

subsection \<open>MostAccessed\<close>

lemma mset_insertLess: "mset (insertLess v us) = add_mset v (mset us)"
  by (induction us) auto

lemma set_insertLess: "set (insertLess v us) = insert v (set us)"
  by (induction us) auto

lemma sorted_insertLess:
  "sorted_wrt (\<lambda>x y. \<not> Less y x) us \<Longrightarrow> sorted_wrt (\<lambda>x y. \<not> Less y x) (insertLess v us)"
  by (induction us) (auto simp: set_insertLess Less_def)

lemma insertionSort_acc:
  "sorted_wrt (\<lambda>x y. \<not> Less y x) acc \<Longrightarrow>
   mset (foldl (\<lambda>acc v. insertLess v acc) acc p) = mset acc + mset p
   \<and> sorted_wrt (\<lambda>x y. \<not> Less y x) (foldl (\<lambda>acc v. insertLess v acc) acc p)"
  by (induction p arbitrary: acc) (auto simp: mset_insertLess sorted_insertLess)

lemma insertionSort_ok: "sort_Sort_ok insertionSort"
  unfolding sort_Sort_ok_def insertionSort_def
proof
  fix p :: "'a CacheItemPair list"
  show "mset (foldl (\<lambda>acc v. insertLess v acc) [] p) = mset p \<and>
        sorted_wrt (\<lambda>x y. \<not> Less y x) (foldl (\<lambda>acc v. insertLess v acc) [] p)"
    using insertionSort_acc[of "[]" p] by simp
qed

lemma mostAccessedLoop_eq:
  "mostAccessedLoop its n p c = List.map_filter (\<lambda>v. map_of its (Key v)) (take (nat (n - c)) p)"
proof (induction p arbitrary: c)
  case Nil
  show ?case by (simp add: List.map_filter_simps)
next
  case (Cons v p)
  show ?case
  proof (cases "c \<ge> n")
    case True
    then show ?thesis by (simp add: List.map_filter_simps)
  next
    case False
    then have "nat (n - c) = Suc (nat (n - (c + 1)))" by simp
    then show ?thesis using False
      by (simp add: Cons.IH List.map_filter_simps split: option.splits)
  qed
qed

lemma map_filter_all_Some:
  "\<forall>v \<in> set xs. g v = Some (f v) \<Longrightarrow> List.map_filter g xs = map f xs"
  by (induction xs) (auto simp: List.map_filter_simps)

text \<open>
  C3. For a table with distinct keys and any sorting function that does what \<open>sort.Sort\<close>
  guarantees, \<open>MostAccessed(n)\<close> returns \<open>min(n, Count)\<close> items (none for \<open>n \<le> 0\<close>), so
  at most \<open>n\<close>; they are items of the table, in descending order of \<open>accessCount\<close>; and no
  item left out has a larger count than one returned. Ties come in the order the sorting
  function leaves them. For counts 5, 1, 9, 3 and \<open>n = 2\<close> the result is the item with
  count 9, then the item with count 5.
\<close>

theorem MostAccessed_ranking:
  assumes srt: "sort_Sort_ok srt"
      and dist: "distinct (map fst (items (table w)))"
  shows "length (MostAccessed srt n w) = min (nat n) (Count w)
     \<and> sorted_wrt (\<lambda>a b. sint (accessCount (heap w a)) \<ge> sint (accessCount (heap w b)))
          (MostAccessed srt n w)
     \<and> set (MostAccessed srt n w) \<subseteq> snd ` set (items (table w))
     \<and> (\<forall>a \<in> set (MostAccessed srt n w). \<forall>b \<in> snd ` set (items (table w)) - set (MostAccessed srt n w).
          sint (accessCount (heap w b)) \<le> sint (accessCount (heap w a)))"
proof -
  let ?its = "items (table w)"
  let ?p = "map (\<lambda>(k, v). \<lparr>Key = k, AccessCount = accessCount (heap w v)\<rparr>) ?its"
  let ?q = "srt ?p"
  let ?f = "\<lambda>v. the (map_of ?its (Key v))"
  let ?cnt = "\<lambda>a. sint (accessCount (heap w a))"
  have ms: "mset ?q = mset ?p" and so: "sorted_wrt (\<lambda>x y. \<not> Less y x) ?q"
    using srt by (simp_all add: sort_Sort_ok_def)
  have setq: "set ?q = set ?p" using ms by (metis set_mset_mset)
  have lenq: "length ?q = length ?its" using ms by (metis size_mset length_map)
  have pv: "map_of ?its (Key v) = Some (?f v) \<and> accessCount (heap w (?f v)) = AccessCount v
            \<and> (Key v, ?f v) \<in> set ?its"
    if "v \<in> set ?q" for v
  proof -
    from that setq obtain k a where ka: "(k, a) \<in> set ?its"
       and v: "v = \<lparr>Key = k, AccessCount = accessCount (heap w a)\<rparr>" by auto
    have "map_of ?its k = Some a" using dist ka by simp
    then show ?thesis using v ka by simp
  qed
  have R: "MostAccessed srt n w = map ?f (take (nat n) ?q)"
  proof -
    have "List.map_filter (\<lambda>v. map_of ?its (Key v)) (take (nat n) ?q) = map ?f (take (nat n) ?q)"
      by (rule map_filter_all_Some) (auto dest!: in_set_takeD pv)
    then show ?thesis
      by (simp add: MostAccessed_def Let_def mostAccessedLoop_eq)
  qed
  have len: "length (MostAccessed srt n w) = min (nat n) (Count w)"
    by (simp add: R lenq Count_def min.commute)
  have sorted_take: "sorted_wrt (\<lambda>x y. \<not> Less y x) (take (nat n) ?q)"
    using so by (rule sorted_wrt_take)
  have srt_res: "sorted_wrt (\<lambda>a b. ?cnt b \<le> ?cnt a) (MostAccessed srt n w)"
    unfolding R sorted_wrt_map
    by (rule sorted_wrt_mono_rel[OF _ sorted_take])
       (auto dest!: in_set_takeD pv simp: Less_def)
  have sub: "set (MostAccessed srt n w) \<subseteq> snd ` set ?its"
    unfolding R using pv by (force dest!: in_set_takeD)
  have top: "?cnt b \<le> ?cnt a"
    if a: "a \<in> set (MostAccessed srt n w)" and b: "b \<in> snd ` set ?its - set (MostAccessed srt n w)"
    for a b
  proof -
    from a obtain x where x: "x \<in> set (take (nat n) ?q)" "a = ?f x" unfolding R by auto
    from b obtain k where kb: "(k, b) \<in> set ?its" by auto
    let ?y = "\<lparr>Key = k, AccessCount = accessCount (heap w b)\<rparr>"
    have yq: "?y \<in> set ?q" unfolding setq using kb by force
    have fy: "?f ?y = b" using dist kb by simp
    have "?y \<notin> set (take (nat n) ?q)" using b fy unfolding R by force
    then have yd: "?y \<in> set (drop (nat n) ?q)"
      using yq by (metis Un_iff append_take_drop_id set_append)
    have "sorted_wrt (\<lambda>x y. \<not> Less y x) (take (nat n) ?q @ drop (nat n) ?q)" using so by simp
    then have "\<not> Less ?y x" using x(1) yd unfolding sorted_wrt_append by blast
    moreover have "accessCount (heap w a) = AccessCount x"
      using pv[of x] x in_set_takeD by fastforce
    ultimately show ?thesis by (simp add: Less_def)
  qed
  show ?thesis using len srt_res sub top by blast
qed

theorem MostAccessed_ranking_witness:
  "sort_Sort_ok (insertionSort :: string CacheItemPair list \<Rightarrow> string CacheItemPair list)
   \<and> distinct (map fst (items (table rankWorld)))
   \<and> MostAccessed insertionSort 2 rankWorld = [2, 0]
   \<and> map (\<lambda>a. accessCount (heap rankWorld a)) (MostAccessed insertionSort 2 rankWorld) = [9, 5]
   \<and> length (MostAccessed insertionSort 2 rankWorld) = min (nat 2) (Count rankWorld)"
proof -
  have d: "distinct (map fst (items (table rankWorld)))"
    by (simp add: rankWorld_def emptyWorld_def newCacheTable_def)
  have r: "MostAccessed insertionSort 2 rankWorld = [2, 0]"
    by (simp add: MostAccessed_def rankWorld_def emptyWorld_def newCacheTable_def
          insertionSort_def Less_def noItem_def)
  have c: "map (\<lambda>a. accessCount (heap rankWorld a)) [2, 0] = [9, 5]"
    by (simp add: rankWorld_def emptyWorld_def noItem_def)
  show ?thesis
    using MostAccessed_ranking[OF insertionSort_ok d, of 2] insertionSort_ok d r c by simp
qed

subsection \<open>One run of the scheduler\<close>







lemmas run_defs = Add_def NewCacheItem_def time_Now_def alloc_def addInternal_def
  emptyWorld_def newCacheTable_def expirationCheck_def deleteInternal_def Sub_def
  maxDuration_def minDuration_def






subsection \<open>Errors of Delete and Value\<close>

lemma Delete_absent: "map_of (items (table w)) k = None \<Longrightarrow> Delete k w = (Inl ErrKeyNotFound, w)"
  by (simp add: Delete_def deleteInternal_def)

lemma Delete_present:
  "map_of (items (table w)) k = Some r \<Longrightarrow> fst (Delete k w) = Inr r"
  by (simp add: Delete_def deleteInternal_def Let_def)

lemma Value_cases:
  "map_of (items (table w)) k = Some r \<Longrightarrow> Value d dc k args w = (Inr r, KeepAlive d r w)"
  "map_of (items (table w)) k = None \<Longrightarrow> loadData (table w) = None \<Longrightarrow>
     Value d dc k args w = (Inl ErrKeyNotFound, w)"
  "map_of (items (table w)) k = None \<Longrightarrow> loadData (table w) = Some f \<Longrightarrow> f k args = None \<Longrightarrow>
     Value d dc k args w = (Inl ErrKeyNotFoundOrLoadable, w)"
  "map_of (items (table w)) k = None \<Longrightarrow> loadData (table w) = Some f \<Longrightarrow> f k args = Some it \<Longrightarrow>
     Value d dc k args w =
       (Inr (nxt w), snd (Add d dc k (lifeSpan it) (data it) (snd (alloc it w))))"
  by (simp_all add: Value_def alloc_def Let_def case_prod_beta)

text \<open>
  C5. \<open>Delete\<close> fails with \<open>ErrKeyNotFound\<close> exactly when the key is absent, and then
  leaves the whole world, so the item map, unchanged; it never fails with
  \<open>ErrKeyNotFoundOrLoadable\<close>. \<open>Value\<close> fails with \<open>ErrKeyNotFound\<close> exactly when the key is
  absent and no loader is set, and with \<open>ErrKeyNotFoundOrLoadable\<close> exactly when the key is
  absent and the loader that is set returns no item; whenever \<open>Value\<close> fails the world is
  unchanged, so the key is still absent.
\<close>

theorem KeyNotFound_errors:
  "(fst (Delete k w) = Inl ErrKeyNotFound) = (map_of (items (table w)) k = None)
   \<and> (map_of (items (table w)) k = None \<longrightarrow> Delete k w = (Inl ErrKeyNotFound, w))
   \<and> fst (Delete k w) \<noteq> Inl ErrKeyNotFoundOrLoadable
   \<and> (fst (Value d dc k args w) = Inl ErrKeyNotFound)
       = (map_of (items (table w)) k = None \<and> loadData (table w) = None)
   \<and> (fst (Value d dc k args w) = Inl ErrKeyNotFoundOrLoadable)
       = (map_of (items (table w)) k = None \<and> (\<exists>f. loadData (table w) = Some f \<and> f k args = None))
   \<and> ((\<exists>e. fst (Value d dc k args w) = Inl e) \<longrightarrow> snd (Value d dc k args w) = w)"
proof -
  have D: "(fst (Delete k w) = Inl ErrKeyNotFound) = (map_of (items (table w)) k = None)"
    "map_of (items (table w)) k = None \<longrightarrow> Delete k w = (Inl ErrKeyNotFound, w)"
    "fst (Delete k w) \<noteq> Inl ErrKeyNotFoundOrLoadable"
    by (cases "map_of (items (table w)) k"; simp add: Delete_absent Delete_present)+
  have V: "(fst (Value d dc k args w) = Inl ErrKeyNotFound)
       = (map_of (items (table w)) k = None \<and> loadData (table w) = None)
     \<and> (fst (Value d dc k args w) = Inl ErrKeyNotFoundOrLoadable)
       = (map_of (items (table w)) k = None \<and> (\<exists>f. loadData (table w) = Some f \<and> f k args = None))
     \<and> ((\<exists>e. fst (Value d dc k args w) = Inl e) \<longrightarrow> snd (Value d dc k args w) = w)"
  proof (cases "map_of (items (table w)) k")
    case (Some r)
    then show ?thesis by (simp add: Value_cases(1))
  next
    case None
    show ?thesis
    proof (cases "loadData (table w)")
      case N: None
      then show ?thesis using None by (simp add: Value_cases(2))
    next
      case (Some f)
      then show ?thesis using None
        by (cases "f k args") (simp_all add: Value_cases(3) Value_cases(4))
    qed
  qed
  show ?thesis using D V by blast
qed

theorem KeyNotFound_errors_witness:
  "map_of (items (table emptyWorld)) ''x'' = None
   \<and> Delete ''x'' emptyWorld = (Inl ErrKeyNotFound, emptyWorld)
   \<and> Value 0 0 ''x'' [] emptyWorld = (Inl ErrKeyNotFound, emptyWorld)
   \<and> Value 0 0 ''x'' [] declineWorld = (Inl ErrKeyNotFoundOrLoadable, declineWorld)
   \<and> map_of (items (table (snd (Value 0 0 ''x'' [] declineWorld)))) ''x'' = None"
proof -
  have a: "map_of (items (table emptyWorld)) ''x'' = None" "loadData (table emptyWorld) = None"
    by (simp_all add: emptyWorld_def newCacheTable_def)
  have b: "map_of (items (table declineWorld)) ''x'' = None"
     "loadData (table declineWorld) = Some (\<lambda>k args. None)"
    by (simp_all add: declineWorld_def SetDataLoader_def emptyWorld_def newCacheTable_def)
  note t1 = KeyNotFound_errors[of "''x''" emptyWorld 0 0 "[]"]
  note t2 = KeyNotFound_errors[of "''x''" declineWorld 0 0 "[]"]
  have "Delete ''x'' emptyWorld = (Inl ErrKeyNotFound, emptyWorld)" using t1 a by simp
  moreover have "Value 0 0 ''x'' [] emptyWorld = (Inl ErrKeyNotFound, emptyWorld)"
    using t1 a by (metis prod.collapse)
  moreover have "Value 0 0 ''x'' [] declineWorld = (Inl ErrKeyNotFoundOrLoadable, declineWorld)"
    using t2 b by (metis prod.collapse)
  ultimately show ?thesis using a b by simp
qed

subsection \<open>Callback lists\<close>

lemma NewCacheItem_unfold:
  "NewCacheItem d k ls dat w =
     (nxt w, w\<lparr>clock := clock w + int d,
                heap := (heap w)(nxt w := \<lparr>key = k, data = dat, lifeSpan = ls,
                   createdOn = clock w + int d, accessedOn = clock w + int d,
                   accessCount = 0, aboutToExpire = []\<rparr>),
                nxt := Suc (nxt w)\<rparr>)"
  by (simp add: NewCacheItem_def time_Now_def alloc_def)

lemma Add_unfold:
  "Add d dc k ls dat w = (nxt w, addInternal dc (nxt w) (snd (NewCacheItem d k ls dat w)))"
  by (simp add: Add_def NewCacheItem_unfold)

lemma Add_trace_any:
  "\<exists>es. (\<forall>e \<in> set es. \<not> isAddedItemCalled e) \<and>
     trace (snd (Add d dc k ls dat w)) =
       trace w @ map (\<lambda>cb. AddedItemCalled cb (nxt w)) (addedItem (table w)) @ es"
proof -
  let ?w1 = "snd (NewCacheItem d k ls dat w)"
  obtain es where es: "\<forall>e \<in> set es. \<not> isAddedItemCalled e"
     "trace (addInternal dc (nxt w) ?w1) =
           trace ?w1 @ map (\<lambda>cb. AddedItemCalled cb (nxt w)) (addedItem (table ?w1))
           @ (if triggers (lifeSpan (heap ?w1 (nxt w))) (cleanupInterval (table ?w1))
              then ExpirationCheckRun # es else [])"
    using addInternal_trace_any[of dc "nxt w" ?w1] by blast
  let ?es = "if triggers (lifeSpan (heap ?w1 (nxt w))) (cleanupInterval (table ?w1))
              then ExpirationCheckRun # es else []"
  have "\<forall>e \<in> set ?es. \<not> isAddedItemCalled e" using es(1) by auto
  moreover have "trace (snd (Add d dc k ls dat w)) =
       trace w @ map (\<lambda>cb. AddedItemCalled cb (nxt w)) (addedItem (table w)) @ ?es"
    unfolding Add_unfold snd_conv es(2) by (simp add: NewCacheItem_unfold)
  ultimately show ?thesis by blast
qed

lemma Delete_trace:
  "map_of (items (table w)) k = Some r \<Longrightarrow>
   trace (snd (Delete k w)) = trace w @ deleteEvents w k r"
  by (simp add: Delete_def deleteInternal_trace)

lemma addAddedItemCallbacks_frame:
  "addedItem (table (addAddedItemCallbacks gs w)) = addedItem (table w) @ gs
   \<and> trace (addAddedItemCallbacks gs w) = trace w
   \<and> nxt (addAddedItemCallbacks gs w) = nxt w
   \<and> items (table (addAddedItemCallbacks gs w)) = items (table w)"
  unfolding addAddedItemCallbacks_def
  by (induction gs arbitrary: w) (simp_all add: AddAddedItemCallback_def)

lemma addAboutToDeleteItemCallbacks_frame:
  "aboutToDeleteItem (table (addAboutToDeleteItemCallbacks gs w)) = aboutToDeleteItem (table w) @ gs
   \<and> trace (addAboutToDeleteItemCallbacks gs w) = trace w
   \<and> heap (addAboutToDeleteItemCallbacks gs w) = heap w
   \<and> items (table (addAboutToDeleteItemCallbacks gs w)) = items (table w)"
  unfolding addAboutToDeleteItemCallbacks_def
  by (induction gs arbitrary: w) (simp_all add: AddAboutToDeleteItemCallback_def)

lemma addAboutToExpireCallbacks_frame:
  "aboutToExpire (heap (addAboutToExpireCallbacks item gs w) item) = aboutToExpire (heap w item) @ gs
   \<and> trace (addAboutToExpireCallbacks item gs w) = trace w
   \<and> table (addAboutToExpireCallbacks item gs w) = table w"
  unfolding addAboutToExpireCallbacks_def
  by (induction gs arbitrary: w) (simp_all add: AddAboutToExpireCallback_def)

lemma Set_callbacks:
  "addedItem (table (SetAddedItemCallback f w)) = [f]"
  "trace (SetAddedItemCallback f w) = trace w"
  "nxt (SetAddedItemCallback f w) = nxt w"
  "aboutToDeleteItem (table (SetAboutToDeleteItemCallback f w)) = [f]"
  "trace (SetAboutToDeleteItemCallback f w) = trace w"
  "heap (SetAboutToDeleteItemCallback f w) = heap w"
  "items (table (SetAboutToDeleteItemCallback f w)) = items (table w)"
  "aboutToExpire (heap (SetAboutToExpireCallback item f w) item) = [f]"
  "trace (SetAboutToExpireCallback item f w) = trace w"
  "table (SetAboutToExpireCallback item f w) = table w"
  by (simp_all add: SetAddedItemCallback_def RemoveAddedItemCallbacks_def
        SetAboutToDeleteItemCallback_def RemoveAboutToDeleteItemCallback_def
        SetAboutToExpireCallback_def RemoveAboutToExpireCallback_def Let_def)

text \<open>
  C8. Whatever the list held before, each "set" operation (\<open>SetAddedItemCallback\<close>,
  \<open>SetAboutToDeleteItemCallback\<close>, \<open>SetAboutToExpireCallback\<close>) leaves the one-element list
  of the new callback, and each "add" operation appends the new callback at the end. So
  after a set of \<open>f\<close> and adds of \<open>gs\<close> the list is \<open>f # gs\<close>; an \<open>Add\<close> then calls exactly
  these added-item callbacks, in this order, with the new item, before anything the
  scheduler may call; and a \<open>Delete\<close> of a present key calls the about-to-delete callbacks
  \<open>f # gs\<close> in order with the item, then the item's about-to-expire callbacks in order
  with the key.
\<close>

theorem callbacks_set_replaces_add_appends:
  "addedItem (table (SetAddedItemCallback f w)) = [f]
   \<and> aboutToDeleteItem (table (SetAboutToDeleteItemCallback f w)) = [f]
   \<and> aboutToExpire (heap (SetAboutToExpireCallback item f w) item) = [f]
   \<and> addedItem (table (AddAddedItemCallback f w)) = addedItem (table w) @ [f]
   \<and> aboutToDeleteItem (table (AddAboutToDeleteItemCallback f w)) = aboutToDeleteItem (table w) @ [f]
   \<and> aboutToExpire (heap (AddAboutToExpireCallback item f w) item) = aboutToExpire (heap w item) @ [f]
   \<and> addedItem (table (addAddedItemCallbacks gs (SetAddedItemCallback f w))) = f # gs
   \<and> aboutToDeleteItem (table (addAboutToDeleteItemCallbacks gs (SetAboutToDeleteItemCallback f w))) = f # gs
   \<and> aboutToExpire (heap (addAboutToExpireCallbacks item gs (SetAboutToExpireCallback item f w)) item) = f # gs
   \<and> (\<exists>es. (\<forall>e \<in> set es. \<not> isAddedItemCalled e) \<and>
         trace (snd (Add d dc k ls dat (addAddedItemCallbacks gs (SetAddedItemCallback f w)))) =
           trace w @ map (\<lambda>cb. AddedItemCalled cb (nxt w)) (f # gs) @ es)
   \<and> (map_of (items (table w)) k = Some item \<longrightarrow>
         trace (snd (Delete k (addAboutToDeleteItemCallbacks gs (SetAboutToDeleteItemCallback f w)))) =
           trace w @ map (\<lambda>cb. AboutToDeleteItemCalled cb item) (f # gs)
             @ map (\<lambda>cb. AboutToExpireCalled cb k) (aboutToExpire (heap w item)))
   \<and> (map_of (items (table w)) k = Some item \<longrightarrow>
         trace (snd (Delete k (addAboutToExpireCallbacks item gs (SetAboutToExpireCallback item f w)))) =
           trace w @ map (\<lambda>cb. AboutToDeleteItemCalled cb item) (aboutToDeleteItem (table w))
             @ map (\<lambda>cb. AboutToExpireCalled cb k) (f # gs))"
proof -
  let ?A = "addAddedItemCallbacks gs (SetAddedItemCallback f w)"
  let ?D = "addAboutToDeleteItemCallbacks gs (SetAboutToDeleteItemCallback f w)"
  let ?E = "addAboutToExpireCallbacks item gs (SetAboutToExpireCallback item f w)"
  have A: "addedItem (table ?A) = f # gs" "trace ?A = trace w" "nxt ?A = nxt w"
    by (simp_all add: addAddedItemCallbacks_frame Set_callbacks)
  have D: "aboutToDeleteItem (table ?D) = f # gs" "trace ?D = trace w" "heap ?D = heap w"
     "items (table ?D) = items (table w)"
    by (simp_all add: addAboutToDeleteItemCallbacks_frame Set_callbacks)
  have E: "aboutToExpire (heap ?E item) = f # gs" "trace ?E = trace w" "table ?E = table w"
    by (simp_all add: addAboutToExpireCallbacks_frame Set_callbacks)
  have add: "\<exists>es. (\<forall>e \<in> set es. \<not> isAddedItemCalled e) \<and>
         trace (snd (Add d dc k ls dat ?A)) =
           trace w @ map (\<lambda>cb. AddedItemCalled cb (nxt w)) (f # gs) @ es"
    using Add_trace_any[of d dc k ls dat ?A] unfolding A .
  have del1: "trace (snd (Delete k ?D)) =
           trace w @ map (\<lambda>cb. AboutToDeleteItemCalled cb item) (f # gs)
             @ map (\<lambda>cb. AboutToExpireCalled cb k) (aboutToExpire (heap w item))"
    if "map_of (items (table w)) k = Some item"
    using Delete_trace[of ?D k item] that unfolding D deleteEvents_def D by simp
  have del2: "trace (snd (Delete k ?E)) =
           trace w @ map (\<lambda>cb. AboutToDeleteItemCalled cb item) (aboutToDeleteItem (table w))
             @ map (\<lambda>cb. AboutToExpireCalled cb k) (f # gs)"
    if "map_of (items (table w)) k = Some item"
    using Delete_trace[of ?E k item] that unfolding E deleteEvents_def E by simp
  have basic: "addedItem (table (AddAddedItemCallback f w)) = addedItem (table w) @ [f]"
    "aboutToDeleteItem (table (AddAboutToDeleteItemCallback f w)) = aboutToDeleteItem (table w) @ [f]"
    "aboutToExpire (heap (AddAboutToExpireCallback item f w) item) = aboutToExpire (heap w item) @ [f]"
    by (simp_all add: AddAddedItemCallback_def AddAboutToDeleteItemCallback_def
          AddAboutToExpireCallback_def)
  show ?thesis
    using Set_callbacks(1)[of f w] Set_callbacks(4)[of f w] Set_callbacks(8)[of item f w]
      basic A(1) D(1) E(1) add del1 del2
    by blast
qed

theorem callbacks_set_replaces_add_appends_witness:
  "map_of (items (table oneWorld)) ''a'' = Some 0
   \<and> addedItem (table oneWorld) = [9] \<and> aboutToDeleteItem (table oneWorld) = [9]
   \<and> addedItem (table (addAddedItemCallbacks [2, 3] (SetAddedItemCallback 1 oneWorld))) = [1, 2, 3]
   \<and> trace (snd (Delete ''a'' (addAboutToDeleteItemCallbacks [2, 3] (SetAboutToDeleteItemCallback 1 oneWorld))))
       = trace oneWorld @ [AboutToDeleteItemCalled 1 0, AboutToDeleteItemCalled 2 0, AboutToDeleteItemCalled 3 0]
   \<and> trace (snd (Delete ''a'' (addAboutToExpireCallbacks 0 [2, 3] (SetAboutToExpireCallback 0 1 oneWorld))))
       = trace oneWorld @ [AboutToDeleteItemCalled 9 0, AboutToExpireCalled 1 ''a'',
                           AboutToExpireCalled 2 ''a'', AboutToExpireCalled 3 ''a'']"
proof -
  have e: "items (table oneWorld) = [(''a'', 0)]" "addedItem (table oneWorld) = [9]"
    "aboutToDeleteItem (table oneWorld) = [9]" "aboutToExpire (heap oneWorld 0) = []"
    by (simp_all add: oneWorld_def run_defs AddAddedItemCallback_def AddAboutToDeleteItemCallback_def)
  have m: "map_of (items (table oneWorld)) ''a'' = Some 0" by (simp add: e)
  note t = callbacks_set_replaces_add_appends[of 1 oneWorld 0 "[2, 3]" _ _ "''a''"]
  show ?thesis using t m e by simp
qed

subsection \<open>Looking a key up after Add\<close>

lemma map_of_filter_key:
  "map_of (filter (\<lambda>p. P (fst p)) xs) k = (if P k then map_of xs k else None)"
  by (induction xs) auto

lemma expirationCheck_lookup:
  "map_of (items (table (expirationCheck d w))) k =
     (if k \<in> doomed (clock w + int d) w (items (table w)) then None
      else map_of (items (table w)) k)"
proof -
  let ?w1 = "w\<lparr>table := (table w)\<lparr>cleanupTimer := map_option Stop (cleanupTimer (table w))\<rparr>,
                 trace := trace w @ [ExpirationCheckRun], clock := clock w + int d\<rparr>"
  have d: "doomed (clock w + int d) ?w1 (items (table w)) = doomed (clock w + int d) w (items (table w))"
    by (simp add: doomed_def)
  have "items (table (expirationCheck d w)) =
      filter (\<lambda>p. fst p \<notin> doomed (clock w + int d) w (items (table w))) (items (table w))"
    unfolding expirationCheck_unfold by (simp add: Let_def expirationLoop_items d)
  then show ?thesis
    using map_of_filter_key[of "\<lambda>x. x \<notin> doomed (clock w + int d) w (items (table w))" "items (table w)" k]
    by simp
qed




lemma Add_lookup_any:
  "map_of (items (table (snd (Add d dc k ls dat w)))) k = None
   \<or> map_of (items (table (snd (Add d dc k ls dat w)))) k = Some (nxt w)"
proof -
  let ?w1 = "snd (NewCacheItem d k ls dat w)"
  have k: "key (heap ?w1 (nxt w)) = k" by (simp add: NewCacheItem_unfold)
  show ?thesis
    unfolding Add_unfold snd_conv addInternal_eq[of dc "nxt w" ?w1] k
    by (simp add: expirationCheck_lookup update_conv')
qed


lemma NotFoundAdd_cases:
  "map_of (items (table w)) k = Some r \<Longrightarrow> NotFoundAdd d dc k ls dat w = (False, w)"
  "map_of (items (table w)) k = None \<Longrightarrow>
     NotFoundAdd d dc k ls dat w = (True, snd (Add d dc k ls dat w))"
  by (simp_all add: NotFoundAdd_def Add_def case_prod_beta)

lemma Add_heap_new:
  "heap (snd (Add d dc k ls dat w)) (nxt w) =
     \<lparr>key = k, data = dat, lifeSpan = ls, createdOn = clock w + int d,
      accessedOn = clock w + int d, accessCount = 0, aboutToExpire = []\<rparr>"
  by (simp add: Add_unfold addInternal_frame NewCacheItem_unfold)

subsection \<open>NotFoundAdd\<close>




subsection \<open>New items\<close>

text \<open>
  C10. The item \<open>NewCacheItem\<close> builds has \<open>accessCount = 0\<close>, \<open>accessedOn = createdOn\<close>, both
  the time of construction, and no about-to-expire callback. \<open>Add\<close> returns this item, with
  these contents after the whole add protocol, and it is the only item the table can hold
  under the key afterwards; the same holds for \<open>NotFoundAdd\<close> on an absent key. So the
  time left for an item never accessed is counted from \<open>createdOn\<close>.
\<close>

theorem NewCacheItem_starts_unaccessed:
  "heap (snd (NewCacheItem d k ls dat w)) (fst (NewCacheItem d k ls dat w)) =
      \<lparr>key = k, data = dat, lifeSpan = ls, createdOn = clock w + int d,
       accessedOn = clock w + int d, accessCount = 0, aboutToExpire = []\<rparr>
   \<and> fst (Add d dc k ls dat w) = fst (NewCacheItem d k ls dat w)
   \<and> heap (snd (Add d dc k ls dat w)) (fst (Add d dc k ls dat w)) =
      \<lparr>key = k, data = dat, lifeSpan = ls, createdOn = clock w + int d,
       accessedOn = clock w + int d, accessCount = 0, aboutToExpire = []\<rparr>
   \<and> (map_of (items (table (snd (Add d dc k ls dat w)))) k = None
      \<or> map_of (items (table (snd (Add d dc k ls dat w)))) k = Some (fst (Add d dc k ls dat w)))
   \<and> (map_of (items (table w)) k = None \<longrightarrow>
        heap (snd (NotFoundAdd d dc k ls dat w)) (fst (NewCacheItem d k ls dat w)) =
          \<lparr>key = k, data = dat, lifeSpan = ls, createdOn = clock w + int d,
           accessedOn = clock w + int d, accessCount = 0, aboutToExpire = []\<rparr>
      \<and> (map_of (items (table (snd (NotFoundAdd d dc k ls dat w)))) k = None
         \<or> map_of (items (table (snd (NotFoundAdd d dc k ls dat w)))) k
             = Some (fst (NewCacheItem d k ls dat w))))
   \<and> timeLeft now (heap (snd (Add d dc k ls dat w)) (fst (Add d dc k ls dat w)))
       = sint ls - (now - createdOn (heap (snd (Add d dc k ls dat w)) (fst (Add d dc k ls dat w))))"
proof -
  have n: "fst (NewCacheItem d k ls dat w) = nxt w" "fst (Add d dc k ls dat w) = nxt w"
    by (simp_all add: NewCacheItem_unfold Add_unfold)
  have h0: "heap (snd (NewCacheItem d k ls dat w)) (nxt w) =
      \<lparr>key = k, data = dat, lifeSpan = ls, createdOn = clock w + int d,
       accessedOn = clock w + int d, accessCount = 0, aboutToExpire = []\<rparr>"
    by (simp add: NewCacheItem_unfold)
  note h1 = Add_heap_new[of d dc k ls dat w]
  note l1 = Add_lookup_any[of d dc k ls dat w]
  have nf: "snd (NotFoundAdd d dc k ls dat w) = snd (Add d dc k ls dat w)"
    if "map_of (items (table w)) k = None"
    using NotFoundAdd_cases(2)[OF that] by simp
  have tl: "timeLeft now (heap (snd (Add d dc k ls dat w)) (nxt w))
       = sint ls - (now - createdOn (heap (snd (Add d dc k ls dat w)) (nxt w)))"
    unfolding h1 by (simp add: timeLeft_def)
  show ?thesis
    unfolding n using h0 h1 l1 nf tl by auto
qed

theorem NewCacheItem_starts_unaccessed_witness:
  "map_of (items (table emptyWorld)) ''a'' = None
   \<and> heap (snd (NotFoundAdd 3 0 ''a'' 5 1 emptyWorld)) 0 =
       \<lparr>key = ''a'', data = 1, lifeSpan = 5, createdOn = 3, accessedOn = 3,
        accessCount = 0, aboutToExpire = []\<rparr>
   \<and> map_of (items (table (snd (NotFoundAdd 3 0 ''a'' 5 1 emptyWorld)))) ''a'' = Some 0"
proof -
  have a: "map_of (items (table emptyWorld)) ''a'' = None" "clock emptyWorld = 0"
    "fst (NewCacheItem 3 ''a'' 5 1 emptyWorld) = 0"
    by (simp_all add: emptyWorld_def newCacheTable_def NewCacheItem_unfold)
  note t = NewCacheItem_starts_unaccessed[of 3 "''a''" 5 1 emptyWorld 0]
  have "heap (snd (NotFoundAdd 3 0 ''a'' 5 1 emptyWorld)) 0 =
       \<lparr>key = ''a'', data = 1, lifeSpan = 5, createdOn = 3, accessedOn = 3,
        accessCount = 0, aboutToExpire = []\<rparr>"
    using t a by simp
  moreover have "map_of (items (table (snd (NotFoundAdd 3 0 ''a'' 5 1 emptyWorld)))) ''a'' = Some 0"
    by (simp add: NotFoundAdd_def run_defs)
  ultimately show ?thesis using a by simp
qed

subsection \<open>Value with a loader\<close>

lemma Value_loads_new_item:
  assumes "map_of (items (table w)) k = None" "loadData (table w) = Some f" "f k args = Some it"
  shows "fst (Value d dc k args w) = Inr (nxt w)"
    and "heap (snd (Value d dc k args w)) (nxt w) = it"
    and "map_of (items (table (snd (Value d dc k args w)))) k = None
         \<or> map_of (items (table (snd (Value d dc k args w)))) k = Some (Suc (nxt w))"
proof -
  let ?w1 = "snd (alloc it w)"
  have v: "Value d dc k args w = (Inr (nxt w), snd (Add d dc k (lifeSpan it) (data it) ?w1))"
    by (rule Value_cases(4)[OF assms])
  have n: "nxt ?w1 = Suc (nxt w)" "heap ?w1 (nxt w) = it" by (simp_all add: alloc_def)
  show "fst (Value d dc k args w) = Inr (nxt w)" by (simp add: v)
  show "heap (snd (Value d dc k args w)) (nxt w) = it"
    unfolding v snd_conv Add_unfold by (simp add: addInternal_frame NewCacheItem_unfold n)
  show "map_of (items (table (snd (Value d dc k args w)))) k = None
         \<or> map_of (items (table (snd (Value d dc k args w)))) k = Some (Suc (nxt w))"
    unfolding v snd_conv using Add_lookup_any[of d dc k "lifeSpan it" "data it" ?w1] n(1) by simp
qed

lemmas value_defs = Value_def KeepAlive_def SetDataLoader_def

text \<open>
  C1. On a miss with a loader that returns an item, \<open>Value\<close> calls \<open>Add\<close>, which builds a
  second item from the lifespan and data of the loader's item and stores that one;
  \<open>Value\<close> then returns the loader's item, not the one \<open>Add\<close> returned. In the example the
  first \<open>Value\<close> returns item 0 while the table holds item 1 under the key; a second
  \<open>Value\<close> returns item 1, and its keep-alive counts on item 1 only.
\<close>

theorem Value_returns_loader_item_not_cached_item:
  "map_of (items (table loaderWorld)) ''k'' = None
   \<and> fst (Value 0 0 ''k'' [] loaderWorld) = Inr 0
   \<and> map_of (items (table (snd (Value 0 0 ''k'' [] loaderWorld)))) ''k'' = Some 1
   \<and> fst (Value 0 0 ''k'' [] (snd (Value 0 0 ''k'' [] loaderWorld))) = Inr 1
   \<and> accessCount (heap (snd (Value 0 0 ''k'' [] (snd (Value 0 0 ''k'' [] loaderWorld)))) 0) = 0
   \<and> accessCount (heap (snd (Value 0 0 ''k'' [] (snd (Value 0 0 ''k'' [] loaderWorld)))) 1) = 1"
proof -
  let ?w' = "snd (Value 0 0 ''k'' [] loaderWorld)"
  have a: "map_of (items (table loaderWorld)) ''k'' = None"
    by (simp add: loaderWorld_def SetDataLoader_def emptyWorld_def newCacheTable_def)
  have b: "fst (Value 0 0 ''k'' [] loaderWorld) = Inr 0"
      "items (table ?w') = [(''k'', 1)]"
      "accessCount (heap ?w' 0) = 0" "accessCount (heap ?w' 1) = 0"
      "accessCount (heap ?w' (Suc 0)) = 0"
    by (simp_all add: loaderWorld_def value_defs run_defs)
  have c: "Value 0 0 ''k'' [] ?w' = (Inr 1, KeepAlive 0 1 ?w')"
    by (rule Value_cases(1)) (simp add: b)
  show ?thesis using a b unfolding c by (simp add: KeepAlive_def time_Now_def)
qed

subsection \<open>KeepAlive and the fields that only advance\<close>
















subsection \<open>Every operation keeps the world well formed\<close>

text \<open>
  The hypotheses of the theorems about \<open>expirationCheck\<close> and \<open>MostAccessed\<close> (distinct keys,
  no access time ahead of the clock) hold in the empty world and are kept by every
  operation, so they hold in every world a sequence of operations reaches.
\<close>

lemma set_update_cases:
  "p \<in> set (AList.update k a xs) \<Longrightarrow> p = (k, a) \<or> p \<in> set xs"
  by (induction xs) (auto split: if_splits)

lemma expirationCheck_items_filter:
  "items (table (expirationCheck d w)) =
     filter (\<lambda>p. fst p \<notin> doomed (clock w + int d) w (items (table w))) (items (table w))"
proof -
  let ?w1 = "w\<lparr>table := (table w)\<lparr>cleanupTimer := map_option Stop (cleanupTimer (table w))\<rparr>,
                 trace := trace w @ [ExpirationCheckRun], clock := clock w + int d\<rparr>"
  have d: "doomed (clock w + int d) ?w1 (items (table w)) = doomed (clock w + int d) w (items (table w))"
    by (simp add: doomed_def)
  show ?thesis
    unfolding expirationCheck_unfold by (simp add: Let_def expirationLoop_items d)
qed

lemma wellFormed_shrink:
  assumes "wellFormed w" "heap w' = heap w" "nxt w \<le> nxt w'" "clock w \<le> clock w'"
    "items (table w') = filter P (items (table w))"
  shows "wellFormed w'"
  using assms by (auto simp: wellFormed_def list_all_iff distinct_map_filter)

lemma expirationCheck_wellFormed: "wellFormed w \<Longrightarrow> wellFormed (expirationCheck d w)"
  by (rule wellFormed_shrink[where P = "\<lambda>p. fst p \<notin> doomed (clock w + int d) w (items (table w))"])
     (simp_all add: expirationCheck_frame expirationCheck_items_filter)

lemma addInternal_wellFormed:
  assumes "wellFormed w" "item < nxt w" "accessedOn (heap w item) \<le> clock w"
  shows "wellFormed (addInternal dc item w)"
proof -
  let ?w2 = "w\<lparr>table := (table w)\<lparr>items := AList.update (key (heap w item)) item (items (table w))\<rparr>,
           trace := trace w @ map (\<lambda>cb. AddedItemCalled cb item) (addedItem (table w))\<rparr>"
  have "wellFormed ?w2"
    using assms by (auto simp: wellFormed_def list_all_iff distinct_update dest!: set_update_cases)
  then show ?thesis
    unfolding addInternal_eq[of dc item w] by (simp add: expirationCheck_wellFormed)
qed

lemma NewCacheItem_wellFormed:
  assumes "wellFormed w"
  shows "wellFormed (snd (NewCacheItem d k ls dat w))"
    and "nxt w < nxt (snd (NewCacheItem d k ls dat w))"
    and "accessedOn (heap (snd (NewCacheItem d k ls dat w)) (nxt w)) \<le> clock (snd (NewCacheItem d k ls dat w))"
  using assms by (auto simp: wellFormed_def list_all_iff NewCacheItem_unfold)

lemma Add_wellFormed: "wellFormed w \<Longrightarrow> wellFormed (snd (Add d dc k ls dat w))"
  unfolding Add_unfold snd_conv
  by (rule addInternal_wellFormed) (simp_all add: NewCacheItem_wellFormed)

lemma alloc_wellFormed: "wellFormed w \<Longrightarrow> wellFormed (snd (alloc it w))"
  by (auto simp: wellFormed_def list_all_iff alloc_def)

lemma KeepAlive_wellFormed: "wellFormed w \<Longrightarrow> wellFormed (KeepAlive d b w)"
  by (auto simp: wellFormed_def list_all_iff KeepAlive_def time_Now_def Let_def)

lemma emptyWorld_wellFormed: "wellFormed emptyWorld"
  by (simp add: wellFormed_def emptyWorld_def newCacheTable_def)

lemma exec_wellFormed:
  assumes wf: "wellFormed w"
  shows "wellFormed (exec op w)"
proof (cases op)
  case (ItemKeepAlive d b)
  then show ?thesis using KeepAlive_wellFormed[OF wf] by simp
next
  case (ItemSetAboutToExpireCallback b f)
  then show ?thesis using wf
    by (auto simp: wellFormed_def list_all_iff SetAboutToExpireCallback_def
          RemoveAboutToExpireCallback_def Let_def)
next
  case (ItemAddAboutToExpireCallback b f)
  then show ?thesis using wf
    by (auto simp: wellFormed_def list_all_iff AddAboutToExpireCallback_def)
next
  case (ItemRemoveAboutToExpireCallback b)
  then show ?thesis using wf
    by (auto simp: wellFormed_def list_all_iff RemoveAboutToExpireCallback_def)
next
  case (TableSetDataLoader f)
  then show ?thesis using wf by (simp add: wellFormed_def SetDataLoader_def)
next
  case (TableSetLogger l)
  then show ?thesis using wf by (simp add: wellFormed_def SetLogger_def)
next
  case (TableSetAddedItemCallback f)
  then show ?thesis using wf
    by (simp add: wellFormed_def SetAddedItemCallback_def RemoveAddedItemCallbacks_def Let_def)
next
  case (TableAddAddedItemCallback f)
  then show ?thesis using wf by (simp add: wellFormed_def AddAddedItemCallback_def)
next
  case TableRemoveAddedItemCallbacks
  then show ?thesis using wf by (simp add: wellFormed_def RemoveAddedItemCallbacks_def)
next
  case (TableSetAboutToDeleteItemCallback f)
  then show ?thesis using wf
    by (simp add: wellFormed_def SetAboutToDeleteItemCallback_def
          RemoveAboutToDeleteItemCallback_def Let_def)
next
  case (TableAddAboutToDeleteItemCallback f)
  then show ?thesis using wf by (simp add: wellFormed_def AddAboutToDeleteItemCallback_def)
next
  case TableRemoveAboutToDeleteItemCallback
  then show ?thesis using wf by (simp add: wellFormed_def RemoveAboutToDeleteItemCallback_def)
next
  case (TableAdd d dc k ls dat)
  then show ?thesis using Add_wellFormed[OF wf] by simp
next
  case (TableNotFoundAdd d dc k ls dat)
  then show ?thesis using Add_wellFormed[OF wf, of d dc k ls dat] wf
    by (cases "map_of (items (table w)) k") (simp_all add: NotFoundAdd_cases)
next
  case (TableDelete k)
  have "wellFormed (snd (deleteInternal k w))"
    by (rule wellFormed_shrink[OF wf, where P = "\<lambda>p. fst p \<noteq> k"])
       (simp_all add: deleteInternal_frame deleteInternal_items delete_as_filter)
  then show ?thesis using TableDelete by (simp add: Delete_def)
next
  case (TableValue d dc k args)
  show ?thesis
  proof (cases "map_of (items (table w)) k")
    case (Some r)
    then show ?thesis using KeepAlive_wellFormed[OF wf] TableValue by (simp add: Value_cases(1))
  next
    case None
    show ?thesis
    proof (cases "loadData (table w)")
      case N: None
      then show ?thesis using None wf TableValue by (simp add: Value_cases(2))
    next
      case (Some f)
      then show ?thesis
        using None wf TableValue Add_wellFormed[OF alloc_wellFormed[OF wf]]
        by (cases "f k args") (simp_all add: Value_cases(3) Value_cases(4))
    qed
  qed
next
  case TableFlush
  then show ?thesis using wf by (simp add: wellFormed_def Flush_def)
next
  case (TimerFires d)
  then show ?thesis using expirationCheck_wellFormed[OF wf] by simp
qed

lemma run_wellFormed: "wellFormed w \<Longrightarrow> wellFormed (run ops w)"
  unfolding run_def by (induction ops arbitrary: w) (simp_all add: exec_wellFormed)

lemma reachable_wellFormed:
  "distinct (map fst (items (table (run ops emptyWorld))))
   \<and> (\<forall>p \<in> set (items (table (run ops emptyWorld))).
        accessedOn (heap (run ops emptyWorld) (snd p)) \<le> clock (run ops emptyWorld))"
  using run_wellFormed[OF emptyWorld_wellFormed, of ops]
  by (simp add: wellFormed_def list_all_iff)

end
